theory Spec2Isabelle
  imports Complex_Main
begin

section \<open>Uniform buffer formats (src/graphics/uniform-buffer-format.js)\<close>

text \<open>
  The module computes the layout of a uniform buffer: every uniform gets the byte size of
  its type from a module-level table, and the constructor of \<open>UniformBufferFormat\<close>
  walks the array of uniforms once, writing each uniform's offset (in 32-bit words) into
  the uniform object itself, adding up the byte sizes and filling a \<open>Map\<close> from names to
  uniform objects.

  JavaScript numbers are IEEE doubles. Every number that occurs here is a sum of at most
  \<open>2^32 - 1\<close> table entries (an array is no longer), each at most 64, or such a sum
  divided by 4; doubles compute these sums and quotients exactly, so numbers are modelled
  as rationals and \<open>/\<close> is the exact quotient (not an integer division).
\<close>

type_synonym number = rat

subsection \<open>The constants of graphics/constants.js\<close>

text \<open>
  The thirteen \<open>UNIFORMTYPE_*\<close> constants are imported from \<open>./constants.js\<close>, which is
  not among the sources. They are array indices; their values are a parameter of the model,
  in the order of the import statement.
\<close>

record constants =
  UNIFORMTYPE_BOOL :: nat
  UNIFORMTYPE_INT :: nat
  UNIFORMTYPE_FLOAT :: nat
  UNIFORMTYPE_VEC2 :: nat
  UNIFORMTYPE_VEC3 :: nat
  UNIFORMTYPE_VEC4 :: nat
  UNIFORMTYPE_IVEC2 :: nat
  UNIFORMTYPE_IVEC3 :: nat
  UNIFORMTYPE_IVEC4 :: nat
  UNIFORMTYPE_BVEC2 :: nat
  UNIFORMTYPE_BVEC3 :: nat
  UNIFORMTYPE_BVEC4 :: nat
  UNIFORMTYPE_MAT4 :: nat

text \<open>The constants name thirteen different type tags.\<close>

definition constants_distinct :: "constants \<Rightarrow> bool" where
  "constants_distinct c =
     distinct [UNIFORMTYPE_BOOL c, UNIFORMTYPE_INT c, UNIFORMTYPE_FLOAT c,
       UNIFORMTYPE_VEC2 c, UNIFORMTYPE_VEC3 c, UNIFORMTYPE_VEC4 c,
       UNIFORMTYPE_IVEC2 c, UNIFORMTYPE_IVEC3 c, UNIFORMTYPE_IVEC4 c,
       UNIFORMTYPE_BVEC2 c, UNIFORMTYPE_BVEC3 c, UNIFORMTYPE_BVEC4 c,
       UNIFORMTYPE_MAT4 c]"

text \<open>
  Modelled from the spec: \<open>graphics/constants.js\<close> is absent, and the spec only says that
  the type tags are a closed enumeration. For evaluating the code on concrete inputs the
  tags are numbered 0 to 11 in the order of the import statement and the matrix tag is 14:
  the numbers that the comment of the source (lines 26 to 37) leaves free next to
  \<open>UNIFORMTYPE_MAT2 = 12\<close>, \<open>UNIFORMTYPE_MAT3 = 13\<close> and \<open>UNIFORMTYPE_TEXTURE2D = 15\<close>.
\<close>

definition constants_js :: constants where
  "constants_js =
     \<lparr>UNIFORMTYPE_BOOL = 0, UNIFORMTYPE_INT = 1, UNIFORMTYPE_FLOAT = 2,
      UNIFORMTYPE_VEC2 = 3, UNIFORMTYPE_VEC3 = 4, UNIFORMTYPE_VEC4 = 5,
      UNIFORMTYPE_IVEC2 = 6, UNIFORMTYPE_IVEC3 = 7, UNIFORMTYPE_IVEC4 = 8,
      UNIFORMTYPE_BVEC2 = 9, UNIFORMTYPE_BVEC3 = 10, UNIFORMTYPE_BVEC4 = 11,
      UNIFORMTYPE_MAT4 = 14\<rparr>"

subsection \<open>The type-size table\<close>

text \<open>
  \<open>uniformTypeToByteSize\<close> starts as the empty array and receives thirteen assignments;
  a later assignment to the same index replaces an earlier one. Reading an index that was
  never assigned gives \<open>undefined\<close>, here \<open>None\<close>.
\<close>

definition uniformTypeToByteSize :: "constants \<Rightarrow> nat \<rightharpoonup> number" where
  "uniformTypeToByteSize c =
     Map.empty
      (UNIFORMTYPE_FLOAT c \<mapsto> 4,
       UNIFORMTYPE_VEC2 c \<mapsto> 8,
       UNIFORMTYPE_VEC3 c \<mapsto> 12,
       UNIFORMTYPE_VEC4 c \<mapsto> 16,
       UNIFORMTYPE_INT c \<mapsto> 4,
       UNIFORMTYPE_IVEC2 c \<mapsto> 8,
       UNIFORMTYPE_IVEC3 c \<mapsto> 12,
       UNIFORMTYPE_IVEC4 c \<mapsto> 16,
       UNIFORMTYPE_BOOL c \<mapsto> 4,
       UNIFORMTYPE_BVEC2 c \<mapsto> 8,
       UNIFORMTYPE_BVEC3 c \<mapsto> 12,
       UNIFORMTYPE_BVEC4 c \<mapsto> 16,
       UNIFORMTYPE_MAT4 c \<mapsto> 64)"

subsection \<open>Debug.assert\<close>

datatype assert_message = Unknown_byte_size nat string

datatype error = AssertFailed assert_message

text \<open>
  Modelled from the spec: \<open>Debug.assert\<close> of \<open>core/debug.js\<close>, which is not among the
  sources. The spec calls the check of the byte size a construction-time assertion that
  fails fatally and aborts the calling code path. The asserted value is the result of a
  table lookup: \<open>undefined\<close> and the number 0 are falsy, every other number is truthy. The
  model hands the truthy number back, so that its caller continues with a defined value.
\<close>

definition Debug_assert :: "number option \<Rightarrow> assert_message \<Rightarrow> error + number" where
  "Debug_assert assertion msg =
     (case assertion of
        None \<Rightarrow> Inl (AssertFailed msg)
      | Some v \<Rightarrow> if v = 0 then Inl (AssertFailed msg) else Inr v)"

subsection \<open>UniformFormat\<close>

text \<open>
  The class has four fields. \<open>offset\<close> is not set by the constructor: it is \<open>undefined\<close>
  (\<open>None\<close>) until a \<open>UniformBufferFormat\<close> writes it.
\<close>

record UniformFormat =
  name :: string
  type :: nat
  byteSize :: number
  offset :: "number option"

text \<open>
  The constructor stores the name and the type, looks the byte size up and asserts it. The
  model returns the field values of the new object, or the error of the assertion.
\<close>

definition new_UniformFormat :: "constants \<Rightarrow> string \<Rightarrow> nat \<Rightarrow> error + UniformFormat" where
  "new_UniformFormat c nm ty =
     (case Debug_assert (uniformTypeToByteSize c ty) (Unknown_byte_size ty nm) of
        Inl e \<Rightarrow> Inl e
      | Inr b \<Rightarrow> Inr \<lparr>name = nm, type = ty, byteSize = b, offset = None\<rparr>)"

subsection \<open>UniformBufferFormat\<close>

text \<open>
  Uniforms are objects: the array handed to the constructor holds references, the
  constructor assigns to \<open>uniform.offset\<close> through them, and the \<open>Map\<close> stores the
  references. A store maps every reference to the current field values of its object; the
  same reference may stand at several places of the array.
\<close>

type_synonym ref = nat

type_synonym store = "ref \<Rightarrow> UniformFormat"

record UniformBufferFormat =
  byteSize :: number
  map_by_name :: "string \<rightharpoonup> ref"
  uniforms :: "ref list"

text \<open>
  The loop of the constructor, over the references of the array in index order. Its state
  is the store, the local variable \<open>byteSize\<close> (here \<open>cursor\<close>) and \<open>this.map\<close>.
\<close>

fun uniforms_loop ::
  "ref list \<Rightarrow> store \<Rightarrow> number \<Rightarrow> (string \<rightharpoonup> ref) \<Rightarrow> store \<times> number \<times> (string \<rightharpoonup> ref)" where
  "uniforms_loop [] s cursor m = (s, cursor, m)"
| "uniforms_loop (uniform # rest) s cursor m =
     (let s1 = s(uniform := (s uniform)\<lparr>offset := Some (cursor / 4)\<rparr>);
          cursor1 = cursor + UniformFormat.byteSize (s1 uniform);
          m1 = m(name (s1 uniform) \<mapsto> uniform)
      in uniforms_loop rest s1 cursor1 m1)"

text \<open>
  The constructor: the field initialisers give \<open>byteSize = 0\<close> and an empty map, the body
  keeps the array, runs the loop from 0 and stores the final value of the local variable.
  It returns the store after the assignments, and the new format.
\<close>

definition new_UniformBufferFormat :: "store \<Rightarrow> ref list \<Rightarrow> store \<times> UniformBufferFormat" where
  "new_UniformBufferFormat s us =
     (case uniforms_loop us s 0 Map.empty of
        (s', cursor, m) \<Rightarrow>
          (s', \<lparr>byteSize = cursor, map_by_name = m, uniforms = us\<rparr>))"

section \<open>Properties of the type-size table\<close>

lemma uniformTypeToByteSize_range:
  "uniformTypeToByteSize c t = Some b \<Longrightarrow> b \<in> {4, 8, 12, 16, 64}"
  by (auto simp: uniformTypeToByteSize_def split: if_splits)

lemma uniformTypeToByteSize_dom:
  "dom (uniformTypeToByteSize c) =
     {UNIFORMTYPE_BOOL c, UNIFORMTYPE_INT c, UNIFORMTYPE_FLOAT c,
      UNIFORMTYPE_VEC2 c, UNIFORMTYPE_VEC3 c, UNIFORMTYPE_VEC4 c,
      UNIFORMTYPE_IVEC2 c, UNIFORMTYPE_IVEC3 c, UNIFORMTYPE_IVEC4 c,
      UNIFORMTYPE_BVEC2 c, UNIFORMTYPE_BVEC3 c, UNIFORMTYPE_BVEC4 c,
      UNIFORMTYPE_MAT4 c}"
  unfolding uniformTypeToByteSize_def
  by (simp only: dom_fun_upd dom_empty option.simps if_False) blast

lemma constants_js_distinct: "constants_distinct constants_js"
  by (simp add: constants_distinct_def constants_js_def)

text \<open>
  With different constants no assignment of the table replaces another one, so every
  lookup gives the number of the tag's own assignment.
\<close>

lemma uniformTypeToByteSize_lookups:
  assumes "constants_distinct c"
  shows "uniformTypeToByteSize c (UNIFORMTYPE_BOOL c) = Some 4"
    and "uniformTypeToByteSize c (UNIFORMTYPE_INT c) = Some 4"
    and "uniformTypeToByteSize c (UNIFORMTYPE_FLOAT c) = Some 4"
    and "uniformTypeToByteSize c (UNIFORMTYPE_VEC2 c) = Some 8"
    and "uniformTypeToByteSize c (UNIFORMTYPE_IVEC2 c) = Some 8"
    and "uniformTypeToByteSize c (UNIFORMTYPE_BVEC2 c) = Some 8"
    and "uniformTypeToByteSize c (UNIFORMTYPE_VEC3 c) = Some 12"
    and "uniformTypeToByteSize c (UNIFORMTYPE_IVEC3 c) = Some 12"
    and "uniformTypeToByteSize c (UNIFORMTYPE_BVEC3 c) = Some 12"
    and "uniformTypeToByteSize c (UNIFORMTYPE_VEC4 c) = Some 16"
    and "uniformTypeToByteSize c (UNIFORMTYPE_IVEC4 c) = Some 16"
    and "uniformTypeToByteSize c (UNIFORMTYPE_BVEC4 c) = Some 16"
    and "uniformTypeToByteSize c (UNIFORMTYPE_MAT4 c) = Some 64"
proof -
  let ?tags = "[UNIFORMTYPE_BOOL c, UNIFORMTYPE_INT c, UNIFORMTYPE_FLOAT c,
       UNIFORMTYPE_VEC2 c, UNIFORMTYPE_VEC3 c, UNIFORMTYPE_VEC4 c,
       UNIFORMTYPE_IVEC2 c, UNIFORMTYPE_IVEC3 c, UNIFORMTYPE_IVEC4 c,
       UNIFORMTYPE_BVEC2 c, UNIFORMTYPE_BVEC3 c, UNIFORMTYPE_BVEC4 c,
       UNIFORMTYPE_MAT4 c]"
  have d: "distinct ?tags" "distinct (rev ?tags)"
    using assms by (simp_all only: constants_distinct_def distinct_rev)
  show "uniformTypeToByteSize c (UNIFORMTYPE_BOOL c) = Some 4"
    and "uniformTypeToByteSize c (UNIFORMTYPE_INT c) = Some 4"
    and "uniformTypeToByteSize c (UNIFORMTYPE_FLOAT c) = Some 4"
    and "uniformTypeToByteSize c (UNIFORMTYPE_VEC2 c) = Some 8"
    and "uniformTypeToByteSize c (UNIFORMTYPE_IVEC2 c) = Some 8"
    and "uniformTypeToByteSize c (UNIFORMTYPE_BVEC2 c) = Some 8"
    and "uniformTypeToByteSize c (UNIFORMTYPE_VEC3 c) = Some 12"
    and "uniformTypeToByteSize c (UNIFORMTYPE_IVEC3 c) = Some 12"
    and "uniformTypeToByteSize c (UNIFORMTYPE_BVEC3 c) = Some 12"
    and "uniformTypeToByteSize c (UNIFORMTYPE_VEC4 c) = Some 16"
    and "uniformTypeToByteSize c (UNIFORMTYPE_IVEC4 c) = Some 16"
    and "uniformTypeToByteSize c (UNIFORMTYPE_BVEC4 c) = Some 16"
    and "uniformTypeToByteSize c (UNIFORMTYPE_MAT4 c) = Some 64"
    using d by (simp_all add: uniformTypeToByteSize_def)
qed

text \<open>
  Claim C4. When the thirteen constants are different numbers, the table holds for each
  registered tag its canonical size: 4 for bool, int and float, 8 for the two-component
  vectors, 12 for the three-component vectors, 16 for the four-component vectors and 64
  for the 4x4 matrix; and the registered tags are exactly these thirteen.
\<close>

theorem uniformTypeToByteSize_canonical:
  assumes "constants_distinct c"
  shows "uniformTypeToByteSize c (UNIFORMTYPE_BOOL c) = Some 4
       \<and> uniformTypeToByteSize c (UNIFORMTYPE_INT c) = Some 4
       \<and> uniformTypeToByteSize c (UNIFORMTYPE_FLOAT c) = Some 4
       \<and> uniformTypeToByteSize c (UNIFORMTYPE_VEC2 c) = Some 8
       \<and> uniformTypeToByteSize c (UNIFORMTYPE_IVEC2 c) = Some 8
       \<and> uniformTypeToByteSize c (UNIFORMTYPE_BVEC2 c) = Some 8
       \<and> uniformTypeToByteSize c (UNIFORMTYPE_VEC3 c) = Some 12
       \<and> uniformTypeToByteSize c (UNIFORMTYPE_IVEC3 c) = Some 12
       \<and> uniformTypeToByteSize c (UNIFORMTYPE_BVEC3 c) = Some 12
       \<and> uniformTypeToByteSize c (UNIFORMTYPE_VEC4 c) = Some 16
       \<and> uniformTypeToByteSize c (UNIFORMTYPE_IVEC4 c) = Some 16
       \<and> uniformTypeToByteSize c (UNIFORMTYPE_BVEC4 c) = Some 16
       \<and> uniformTypeToByteSize c (UNIFORMTYPE_MAT4 c) = Some 64
       \<and> dom (uniformTypeToByteSize c) =
           {UNIFORMTYPE_BOOL c, UNIFORMTYPE_INT c, UNIFORMTYPE_FLOAT c,
            UNIFORMTYPE_VEC2 c, UNIFORMTYPE_VEC3 c, UNIFORMTYPE_VEC4 c,
            UNIFORMTYPE_IVEC2 c, UNIFORMTYPE_IVEC3 c, UNIFORMTYPE_IVEC4 c,
            UNIFORMTYPE_BVEC2 c, UNIFORMTYPE_BVEC3 c, UNIFORMTYPE_BVEC4 c,
            UNIFORMTYPE_MAT4 c}"
proof -
  note lookups = uniformTypeToByteSize_lookups [OF assms]
  show ?thesis
    by (simp only: lookups uniformTypeToByteSize_dom simp_thms)
qed

theorem uniformTypeToByteSize_canonical_witness:
  "constants_distinct constants_js
   \<and> uniformTypeToByteSize constants_js (UNIFORMTYPE_BOOL constants_js) = Some 4
   \<and> uniformTypeToByteSize constants_js (UNIFORMTYPE_FLOAT constants_js) = Some 4
   \<and> uniformTypeToByteSize constants_js (UNIFORMTYPE_VEC3 constants_js) = Some 12
   \<and> uniformTypeToByteSize constants_js (UNIFORMTYPE_VEC4 constants_js) = Some 16
   \<and> uniformTypeToByteSize constants_js (UNIFORMTYPE_MAT4 constants_js) = Some 64"
proof -
  note canonical = uniformTypeToByteSize_canonical [OF constants_js_distinct]
  show ?thesis
    by (simp only: canonical constants_js_distinct simp_thms)
qed

section \<open>The loop of the constructor\<close>

lemma uniforms_loop_fields:
  "uniforms_loop us s b m = (s', b', m') \<Longrightarrow>
     name (s' r) = name (s r) \<and> type (s' r) = type (s r)
     \<and> UniformFormat.byteSize (s' r) = UniformFormat.byteSize (s r)"
proof (induction us arbitrary: s b m)
  case Nil
  then show ?case by simp
next
  case (Cons u us)
  let ?s1 = "s(u := (s u)\<lparr>offset := Some (b / 4)\<rparr>)"
  from Cons.prems obtain b1 m1 where "uniforms_loop us ?s1 b1 m1 = (s', b', m')"
    by (simp add: Let_def)
  from Cons.IH [OF this] show ?case by simp
qed

lemma uniforms_loop_unchanged:
  "uniforms_loop us s b m = (s', b', m') \<Longrightarrow> r \<notin> set us \<Longrightarrow> s' r = s r"
proof (induction us arbitrary: s b m)
  case Nil
  then show ?case by simp
next
  case (Cons u us)
  let ?s1 = "s(u := (s u)\<lparr>offset := Some (b / 4)\<rparr>)"
  from Cons.prems obtain b1 m1 where "uniforms_loop us ?s1 b1 m1 = (s', b', m')"
    by (simp add: Let_def)
  from Cons.IH [OF this] Cons.prems(2) show ?case by simp
qed

lemma uniforms_loop_cursor:
  "uniforms_loop us s b m = (s', b', m') \<Longrightarrow>
     b' = b + sum_list (map (\<lambda>r. UniformFormat.byteSize (s r)) us)"
proof (induction us arbitrary: s b m)
  case Nil
  then show ?case by simp
next
  case (Cons u us)
  let ?s1 = "s(u := (s u)\<lparr>offset := Some (b / 4)\<rparr>)"
  have same: "\<And>r. UniformFormat.byteSize (?s1 r) = UniformFormat.byteSize (s r)"
    by simp
  from Cons.prems
  have "uniforms_loop us ?s1 (b + UniformFormat.byteSize (s u)) (m(name (s u) \<mapsto> u)) = (s', b', m')"
    by (simp add: Let_def)
  from Cons.IH [OF this] show ?case
    by (simp only: same list.map sum_list.Cons add.assoc)
qed

lemma uniforms_loop_offset:
  "uniforms_loop us s b m = (s', b', m') \<Longrightarrow> i < length us \<Longrightarrow>
   us ! i \<notin> set (drop (Suc i) us) \<Longrightarrow>
     offset (s' (us ! i)) =
       Some ((b + sum_list (map (\<lambda>r. UniformFormat.byteSize (s r)) (take i us))) / 4)"
proof (induction us arbitrary: s b m i)
  case Nil
  then show ?case by simp
next
  case (Cons u us)
  let ?s1 = "s(u := (s u)\<lparr>offset := Some (b / 4)\<rparr>)"
  have same: "\<And>r. UniformFormat.byteSize (?s1 r) = UniformFormat.byteSize (s r)"
    by simp
  from Cons.prems(1)
  have run: "uniforms_loop us ?s1 (b + UniformFormat.byteSize (s u)) (m(name (s u) \<mapsto> u)) = (s', b', m')"
    by (simp add: Let_def)
  show ?case
  proof (cases i)
    case 0
    with Cons.prems(3) have "u \<notin> set us" by simp
    from uniforms_loop_unchanged [OF run this] 0 show ?thesis by simp
  next
    case (Suc j)
    with Cons.prems have j: "j < length us" "us ! j \<notin> set (drop (Suc j) us)"
      by simp_all
    have "offset (s' (us ! j)) =
        Some ((b + UniformFormat.byteSize (s u)
                + sum_list (map (\<lambda>r. UniformFormat.byteSize (s r)) (take j us))) / 4)"
      using Cons.IH [OF run j] by (simp only: same)
    with Suc show ?thesis
      by (simp add: add.assoc)
  qed
qed

lemma uniforms_loop_map_absent:
  "uniforms_loop us s b m = (s', b', m') \<Longrightarrow> \<forall>r\<in>set us. name (s r) \<noteq> n \<Longrightarrow> m' n = m n"
proof (induction us arbitrary: s b m)
  case Nil
  then show ?case by simp
next
  case (Cons u us)
  let ?s1 = "s(u := (s u)\<lparr>offset := Some (b / 4)\<rparr>)"
  have same: "\<And>r. name (?s1 r) = name (s r)"
    by simp
  from Cons.prems(1)
  have run: "uniforms_loop us ?s1 (b + UniformFormat.byteSize (s u)) (m(name (s u) \<mapsto> u)) = (s', b', m')"
    by (simp add: Let_def)
  from Cons.prems(2) have "\<forall>r\<in>set us. name (?s1 r) \<noteq> n"
    by (simp only: same) simp
  moreover from Cons.prems(2) have "n \<noteq> name (s u)" by auto
  ultimately show ?case using Cons.IH [OF run] by simp
qed

lemma uniforms_loop_map_last:
  "uniforms_loop us s b m = (s', b', m') \<Longrightarrow> i < length us \<Longrightarrow> name (s (us ! i)) = n \<Longrightarrow>
   \<forall>j. i < j \<and> j < length us \<longrightarrow> name (s (us ! j)) \<noteq> n \<Longrightarrow>
     m' n = Some (us ! i)"
proof (induction us arbitrary: s b m i)
  case Nil
  then show ?case by simp
next
  case (Cons u us)
  let ?s1 = "s(u := (s u)\<lparr>offset := Some (b / 4)\<rparr>)"
  have same: "\<And>r. name (?s1 r) = name (s r)"
    by simp
  from Cons.prems(1)
  have run: "uniforms_loop us ?s1 (b + UniformFormat.byteSize (s u)) (m(name (s u) \<mapsto> u)) = (s', b', m')"
    by (simp add: Let_def)
  show ?case
  proof (cases i)
    case 0
    have "\<forall>r\<in>set us. name (?s1 r) \<noteq> n"
    proof
      fix r assume "r \<in> set us"
      then obtain k where k: "k < length us" "us ! k = r"
        by (auto simp: in_set_conv_nth)
      with Cons.prems(4) [rule_format, of "Suc k"] 0
      have "name (s ((u # us) ! Suc k)) \<noteq> n" by simp
      with k show "name (?s1 r) \<noteq> n" by (simp only: same) simp
    qed
    from uniforms_loop_map_absent [OF run this] Cons.prems(3) 0 show ?thesis by simp
  next
    case (Suc j)
    with Cons.prems have j: "j < length us" "name (?s1 (us ! j)) = n"
      by (simp_all only: same) simp_all
    have later: "\<forall>k. j < k \<and> k < length us \<longrightarrow> name (?s1 (us ! k)) \<noteq> n"
    proof (intro allI impI)
      fix k assume "j < k \<and> k < length us"
      with Cons.prems(4) [rule_format, of "Suc k"] Suc
      have "name (s ((u # us) ! Suc k)) \<noteq> n" by simp
      then show "name (?s1 (us ! k)) \<noteq> n" by (simp only: same) simp
    qed
    from Cons.IH [OF run j later] Suc show ?thesis by simp
  qed
qed

lemma last_occurrence:
  "\<exists>x\<in>set xs. P x \<Longrightarrow> \<exists>i<length xs. P (xs ! i) \<and> (\<forall>j. i < j \<and> j < length xs \<longrightarrow> \<not> P (xs ! j))"
proof (induction xs rule: rev_induct)
  case Nil
  then show ?case by simp
next
  case (snoc x xs)
  show ?case
  proof (cases "P x")
    case True
    then have "P ((xs @ [x]) ! length xs) \<and>
        (\<forall>j. length xs < j \<and> j < length (xs @ [x]) \<longrightarrow> \<not> P ((xs @ [x]) ! j))"
      by auto
    then show ?thesis by (intro exI [of _ "length xs"]) simp
  next
    case False
    with snoc.prems have "\<exists>x\<in>set xs. P x" by simp
    from snoc.IH [OF this] obtain i where i: "i < length xs" "P (xs ! i)"
      "\<forall>j. i < j \<and> j < length xs \<longrightarrow> \<not> P (xs ! j)" by blast
    have "\<forall>j. i < j \<and> j < length (xs @ [x]) \<longrightarrow> \<not> P ((xs @ [x]) ! j)"
    proof (intro allI impI)
      fix j assume j: "i < j \<and> j < length (xs @ [x])"
      show "\<not> P ((xs @ [x]) ! j)"
      proof (cases "j < length xs")
        case True
        with i(3) j show ?thesis by (simp add: nth_append)
      next
        case False
        with j have "j = length xs" by simp
        with \<open>\<not> P x\<close> show ?thesis by simp
      qed
    qed
    with i(1,2) show ?thesis
      by (intro exI [of _ i]) (simp add: nth_append)
  qed
qed

section \<open>The two constructors\<close>

lemma new_UniformBufferFormat_run:
  assumes "new_UniformBufferFormat s us = (s', f)"
  obtains b' m' where "uniforms_loop us s 0 Map.empty = (s', b', m')"
    and "f = \<lparr>byteSize = b', map_by_name = m', uniforms = us\<rparr>"
proof -
  obtain s1 b' m' where run: "uniforms_loop us s 0 Map.empty = (s1, b', m')"
    by (cases "uniforms_loop us s 0 Map.empty") blast
  with assms have "s1 = s'" "f = \<lparr>byteSize = b', map_by_name = m', uniforms = us\<rparr>"
    by (simp_all add: new_UniformBufferFormat_def)
  with run that show thesis by blast
qed

lemma distinct_not_later:
  "distinct us \<Longrightarrow> i < length us \<Longrightarrow> us ! i \<notin> set (drop (Suc i) us)"
proof
  assume d: "distinct us" and i: "i < length us" and "us ! i \<in> set (drop (Suc i) us)"
  then obtain k where k: "k < length (drop (Suc i) us)" "drop (Suc i) us ! k = us ! i"
    by (auto simp: in_set_conv_nth)
  then have "Suc i + k < length us" "us ! (Suc i + k) = us ! i"
    by simp_all
  with d i have "Suc i + k = i"
    by (simp add: nth_eq_iff_index_eq)
  then show False by simp
qed

lemma new_UniformFormat_Inr:
  "new_UniformFormat c nm ty = Inr u \<Longrightarrow>
     uniformTypeToByteSize c ty = Some (UniformFormat.byteSize u)
     \<and> name u = nm \<and> type u = ty \<and> offset u = None"
  by (auto simp: new_UniformFormat_def Debug_assert_def split: option.splits if_splits)

lemma new_UniformFormat_registered:
  "uniformTypeToByteSize c ty = Some b \<Longrightarrow>
     new_UniformFormat c nm ty = Inr \<lparr>name = nm, type = ty, byteSize = b, offset = None\<rparr>"
  using uniformTypeToByteSize_range [of c ty b]
  by (auto simp: new_UniformFormat_def Debug_assert_def)

text \<open>
  Claim C2. The byte size of the constructed format is the sum of the byte sizes of the
  uniforms of the array, one summand for each place of the array, whatever the names are;
  the byte sizes of the uniforms are the same before and after the construction.
\<close>

theorem UniformBufferFormat_byteSize_sum:
  "UniformBufferFormat.byteSize (snd (new_UniformBufferFormat s us)) =
     sum_list (map (\<lambda>r. UniformFormat.byteSize (s r)) us)
   \<and> sum_list (map (\<lambda>r. UniformFormat.byteSize (fst (new_UniformBufferFormat s us) r)) us) =
     sum_list (map (\<lambda>r. UniformFormat.byteSize (s r)) us)"
proof -
  obtain s' f where new: "new_UniformBufferFormat s us = (s', f)"
    by (cases "new_UniformBufferFormat s us") blast
  then obtain b' m' where run: "uniforms_loop us s 0 Map.empty = (s', b', m')"
    and f: "f = \<lparr>byteSize = b', map_by_name = m', uniforms = us\<rparr>"
    by (rule new_UniformBufferFormat_run)
  have same: "\<And>r. UniformFormat.byteSize (s' r) = UniformFormat.byteSize (s r)"
    using uniforms_loop_fields [OF run] by blast
  from uniforms_loop_cursor [OF run] new f show ?thesis
    by (simp add: same)
qed

text \<open>
  Claim C9. From the empty array the constructor makes a format of byte size 0 with an empty
  map and leaves the store as it is; looking up any name gives nothing.
\<close>

theorem UniformBufferFormat_empty:
  "new_UniformBufferFormat s [] =
     (s, \<lparr>byteSize = 0, map_by_name = Map.empty, uniforms = []\<rparr>)
   \<and> UniformBufferFormat.byteSize (snd (new_UniformBufferFormat s [])) = 0
   \<and> (\<forall>n. map_by_name (snd (new_UniformBufferFormat s [])) n = None)"
  by (simp add: new_UniformBufferFormat_def)

text \<open>
  Claim C3. For every name and every type tag that the table does not register, the
  constructor of \<open>UniformFormat\<close> ends in the failed assertion, with the message built from
  the tag and the name, and returns no uniform; and whenever the constructor does return a
  uniform, its byte size is the table's entry for its type, never a default.
\<close>

theorem new_UniformFormat_unregistered:
  assumes "ty \<notin> dom (uniformTypeToByteSize c)"
  shows "new_UniformFormat c nm ty = Inl (AssertFailed (Unknown_byte_size ty nm))
       \<and> (\<forall>u. new_UniformFormat c nm ty \<noteq> Inr u)
       \<and> (\<forall>nm' ty' u. new_UniformFormat c nm' ty' = Inr u \<longrightarrow>
            uniformTypeToByteSize c ty' = Some (UniformFormat.byteSize u))"
proof -
  from assms have "uniformTypeToByteSize c ty = None" by blast
  then have "new_UniformFormat c nm ty = Inl (AssertFailed (Unknown_byte_size ty nm))"
    by (simp add: new_UniformFormat_def Debug_assert_def)
  then show ?thesis using new_UniformFormat_Inr by simp
qed

theorem new_UniformFormat_unregistered_witness:
  "12 \<notin> dom (uniformTypeToByteSize constants_js)
   \<and> new_UniformFormat constants_js ''matrix_normal'' 12 =
       Inl (AssertFailed (Unknown_byte_size 12 ''matrix_normal''))
   \<and> (\<forall>u. new_UniformFormat constants_js ''matrix_normal'' 12 \<noteq> Inr u)"
proof -
  have h: "12 \<notin> dom (uniformTypeToByteSize constants_js)"
    by (simp add: uniformTypeToByteSize_dom constants_js_def)
  from new_UniformFormat_unregistered [OF h, of "''matrix_normal''"] h show ?thesis
    by blast
qed

text \<open>
  Claim C1, as the code has it. When no uniform object stands twice in the array, then after
  the construction every uniform of the array has an offset, and four times the offset of
  the uniform at index \<open>i\<close> is the sum of the byte sizes of the uniforms at the indices
  below \<open>i\<close> (0 for the first one): the uniforms are packed one after the other, with no gap
  and no padding. The format keeps the array.
\<close>

theorem UniformBufferFormat_offsets_sequential:
  assumes "distinct us"
    and "new_UniformBufferFormat s us = (s', f)"
    and "i < length us"
  shows "\<exists>off. offset (s' (uniforms f ! i)) = Some off
           \<and> off * 4 = sum_list (map (\<lambda>r. UniformFormat.byteSize (s' r)) (take i (uniforms f)))"
proof -
  from assms(2) obtain b' m' where run: "uniforms_loop us s 0 Map.empty = (s', b', m')"
    and f: "f = \<lparr>byteSize = b', map_by_name = m', uniforms = us\<rparr>"
    by (rule new_UniformBufferFormat_run)
  have same: "\<And>r. UniformFormat.byteSize (s' r) = UniformFormat.byteSize (s r)"
    using uniforms_loop_fields [OF run] by blast
  let ?sum = "sum_list (map (\<lambda>r. UniformFormat.byteSize (s r)) (take i us))"
  from uniforms_loop_offset [OF run assms(3) distinct_not_later [OF assms(1,3)]]
  have "offset (s' (uniforms f ! i)) = Some (?sum / 4)"
    using f by simp
  moreover have "?sum / 4 * 4 =
      sum_list (map (\<lambda>r. UniformFormat.byteSize (s' r)) (take i (uniforms f)))"
    using f by (simp add: same)
  ultimately show ?thesis by blast
qed

theorem UniformBufferFormat_offsets_sequential_witness:
  "distinct [0, 1 :: nat]
   \<and> new_UniformBufferFormat
        (\<lambda>r. \<lparr>name = ''x'', type = 2, byteSize = 4, offset = None\<rparr>) [0, 1] =
        ((\<lambda>r. \<lparr>name = ''x'', type = 2, byteSize = 4, offset = None\<rparr>)
           (0 := \<lparr>name = ''x'', type = 2, byteSize = 4, offset = Some 0\<rparr>,
            1 := \<lparr>name = ''x'', type = 2, byteSize = 4, offset = Some 1\<rparr>),
         \<lparr>byteSize = 8, map_by_name = [''x'' \<mapsto> 1], uniforms = [0, 1]\<rparr>)
   \<and> (\<exists>off. offset (((\<lambda>r. \<lparr>name = ''x'', type = 2, byteSize = 4, offset = None\<rparr>)
           (0 := \<lparr>name = ''x'', type = 2, byteSize = 4, offset = Some 0\<rparr>,
            1 := \<lparr>name = ''x'', type = 2, byteSize = 4, offset = Some 1\<rparr>)) 1) = Some off
         \<and> off * 4 = 4)"
proof -
  let ?x = "\<lparr>name = ''x'', type = 2, byteSize = 4, offset = None\<rparr>"
  let ?s' = "(\<lambda>r. ?x)(0 := ?x\<lparr>offset := Some 0\<rparr>, 1 := ?x\<lparr>offset := Some 1\<rparr>)"
  let ?f = "\<lparr>byteSize = 8, map_by_name = [''x'' \<mapsto> 1], uniforms = [0, 1]\<rparr>"
  have d: "distinct [0, 1 :: nat]" by simp
  have new: "new_UniformBufferFormat (\<lambda>r. ?x) [0, 1] = (?s', ?f)"
    by (simp add: new_UniformBufferFormat_def Let_def)
  have i: "1 < length [0, 1 :: nat]" by simp
  from UniformBufferFormat_offsets_sequential [OF d new i] d new show ?thesis
    by simp
qed

text \<open>
  The counterexample to C1 as the claim states it, for every array: the uniform
  \<open>new UniformFormat('x', UNIFORMTYPE_FLOAT)\<close>, put twice into the array. The second pass
  of the loop overwrites the offset of the one object, so after the construction the
  uniform at index 0 has the offset 1, and four times it is 4, not the empty sum 0.
\<close>

theorem UniformBufferFormat_offsets_aliased_counterexample:
  "new_UniformFormat constants_js ''x'' (UNIFORMTYPE_FLOAT constants_js) =
     Inr \<lparr>name = ''x'', type = 2, byteSize = 4, offset = None\<rparr>
   \<and> offset (fst (new_UniformBufferFormat
        (\<lambda>r. \<lparr>name = ''x'', type = 2, byteSize = 4, offset = None\<rparr>) [0, 0]) ([0, 0] ! 0)) = Some 1
   \<and> \<not> (\<exists>off. offset (fst (new_UniformBufferFormat
        (\<lambda>r. \<lparr>name = ''x'', type = 2, byteSize = 4, offset = None\<rparr>) [0, 0]) ([0, 0] ! 0)) = Some off
        \<and> off * 4 = sum_list (map (\<lambda>r. UniformFormat.byteSize (fst (new_UniformBufferFormat
        (\<lambda>r. \<lparr>name = ''x'', type = 2, byteSize = 4, offset = None\<rparr>) [0, 0]) r)) (take 0 [0, 0])))"
proof -
  have "uniformTypeToByteSize constants_js (UNIFORMTYPE_FLOAT constants_js) = Some 4"
    by (rule uniformTypeToByteSize_lookups [OF constants_js_distinct])
  from new_UniformFormat_registered [OF this, of "''x''"]
  have "new_UniformFormat constants_js ''x'' (UNIFORMTYPE_FLOAT constants_js) =
     Inr \<lparr>name = ''x'', type = 2, byteSize = 4, offset = None\<rparr>"
    by (simp add: constants_js_def)
  then show ?thesis
    by (simp add: new_UniformBufferFormat_def Let_def)
qed

section \<open>Lookup by name\<close>

text \<open>
  Claim C5. In a constructed format, a name that some uniform of the array carries is
  mapped to a uniform object of the array carrying this name: the one at the last index with
  this name. The object has the offset that its pass of the loop assigned to it (the bytes
  before its index, divided by 4) and its byte size is untouched. A name that no uniform of
  the array carries is not in the map: the lookup gives \<open>undefined\<close>, here \<open>None\<close>.
\<close>

theorem UniformBufferFormat_map_lookup:
  assumes "new_UniformBufferFormat s us = (s', f)"
  shows "(n \<in> (\<lambda>r. name (s' r)) ` set us \<longrightarrow>
            (\<exists>i<length us. map_by_name f n = Some (us ! i)
               \<and> name (s' (us ! i)) = n
               \<and> (\<forall>j. i < j \<and> j < length us \<longrightarrow> name (s' (us ! j)) \<noteq> n)
               \<and> offset (s' (us ! i)) =
                   Some (sum_list (map (\<lambda>r. UniformFormat.byteSize (s' r)) (take i us)) / 4)
               \<and> UniformFormat.byteSize (s' (us ! i)) = UniformFormat.byteSize (s (us ! i))))
       \<and> (n \<notin> (\<lambda>r. name (s' r)) ` set us \<longrightarrow> map_by_name f n = None)"
proof -
  from assms obtain b' m' where run: "uniforms_loop us s 0 Map.empty = (s', b', m')"
    and f: "f = \<lparr>byteSize = b', map_by_name = m', uniforms = us\<rparr>"
    by (rule new_UniformBufferFormat_run)
  have names: "\<And>r. name (s' r) = name (s r)"
    and sizes: "\<And>r. UniformFormat.byteSize (s' r) = UniformFormat.byteSize (s r)"
    using uniforms_loop_fields [OF run] by blast+
  have absent: "map_by_name f n = None" if "n \<notin> (\<lambda>r. name (s' r)) ` set us"
  proof -
    from that have "\<forall>r\<in>set us. name (s r) \<noteq> n"
      by (auto simp: names)
    from uniforms_loop_map_absent [OF run this] f show ?thesis by simp
  qed
  have present: "\<exists>i<length us. map_by_name f n = Some (us ! i)
               \<and> name (s' (us ! i)) = n
               \<and> (\<forall>j. i < j \<and> j < length us \<longrightarrow> name (s' (us ! j)) \<noteq> n)
               \<and> offset (s' (us ! i)) =
                   Some (sum_list (map (\<lambda>r. UniformFormat.byteSize (s' r)) (take i us)) / 4)
               \<and> UniformFormat.byteSize (s' (us ! i)) = UniformFormat.byteSize (s (us ! i))"
    if "n \<in> (\<lambda>r. name (s' r)) ` set us"
  proof -
    from that have "\<exists>r\<in>set us. name (s r) = n"
      by (auto simp: names)
    from last_occurrence [of us "\<lambda>r. name (s r) = n", OF this]
    obtain i where i: "i < length us" "name (s (us ! i)) = n"
      and later: "\<forall>j. i < j \<and> j < length us \<longrightarrow> name (s (us ! j)) \<noteq> n"
      by blast
    have "us ! i \<notin> set (drop (Suc i) us)"
    proof
      assume "us ! i \<in> set (drop (Suc i) us)"
      then obtain k where k: "k < length (drop (Suc i) us)" "drop (Suc i) us ! k = us ! i"
        by (auto simp: in_set_conv_nth)
      then have "Suc i + k < length us" "us ! (Suc i + k) = us ! i"
        by simp_all
      with later [rule_format, of "Suc i + k"] i(2) show False by simp
    qed
    from uniforms_loop_offset [OF run i(1) this]
    have "offset (s' (us ! i)) =
        Some (sum_list (map (\<lambda>r. UniformFormat.byteSize (s' r)) (take i us)) / 4)"
      by (simp add: sizes)
    moreover from uniforms_loop_map_last [OF run i later] f
    have "map_by_name f n = Some (us ! i)" by simp
    ultimately show ?thesis using i later by (auto simp: names sizes)
  qed
  from absent present show ?thesis by blast
qed

section \<open>Determinism\<close>

lemma uniforms_loop_agree:
  "uniforms_loop us s1 b m = (s1', b1', m1') \<Longrightarrow>
   uniforms_loop us s2 b m = (s2', b2', m2') \<Longrightarrow>
   \<forall>r\<in>set us. name (s1 r) = name (s2 r)
      \<and> UniformFormat.byteSize (s1 r) = UniformFormat.byteSize (s2 r) \<Longrightarrow>
     b1' = b2' \<and> m1' = m2' \<and> (\<forall>r\<in>set us. offset (s1' r) = offset (s2' r))"
proof (induction us arbitrary: s1 s2 b m)
  case Nil
  then show ?case by simp
next
  case (Cons u us)
  let ?t1 = "s1(u := (s1 u)\<lparr>offset := Some (b / 4)\<rparr>)"
  let ?t2 = "s2(u := (s2 u)\<lparr>offset := Some (b / 4)\<rparr>)"
  from Cons.prems(3) have u: "name (s1 u) = name (s2 u)"
      "UniformFormat.byteSize (s1 u) = UniformFormat.byteSize (s2 u)"
    by simp_all
  from Cons.prems(1)
  have run1: "uniforms_loop us ?t1 (b + UniformFormat.byteSize (s2 u)) (m(name (s2 u) \<mapsto> u))
      = (s1', b1', m1')"
    by (simp add: Let_def u)
  from Cons.prems(2)
  have run2: "uniforms_loop us ?t2 (b + UniformFormat.byteSize (s2 u)) (m(name (s2 u) \<mapsto> u))
      = (s2', b2', m2')"
    by (simp add: Let_def)
  from Cons.prems(3)
  have agree: "\<forall>r\<in>set us. name (?t1 r) = name (?t2 r)
      \<and> UniformFormat.byteSize (?t1 r) = UniformFormat.byteSize (?t2 r)"
    by simp
  note ih = Cons.IH [OF run1 run2 agree]
  have "offset (s1' u) = offset (s2' u)"
  proof (cases "u \<in> set us")
    case True
    with ih show ?thesis by blast
  next
    case False
    from uniforms_loop_unchanged [OF run1 False] uniforms_loop_unchanged [OF run2 False]
    show ?thesis by simp
  qed
  with ih show ?case by simp
qed

text \<open>
  Claim C7. The result of the constructor is a function of the array and of the names and
  byte sizes of its uniforms. Two runs on stores that agree on these give equal formats
  (byte size, map and array) and the same offset, byte size, name and type for every uniform
  of the array, whatever offsets the uniforms had before. In particular a second run on the
  uniforms that the first run has left gives the same store and the same format again.
\<close>

theorem UniformBufferFormat_deterministic:
  assumes "\<forall>r\<in>set us. name (s1 r) = name (s2 r) \<and> type (s1 r) = type (s2 r)
             \<and> UniformFormat.byteSize (s1 r) = UniformFormat.byteSize (s2 r)"
  shows "snd (new_UniformBufferFormat s1 us) = snd (new_UniformBufferFormat s2 us)
       \<and> (\<forall>r\<in>set us.
            offset (fst (new_UniformBufferFormat s1 us) r) =
              offset (fst (new_UniformBufferFormat s2 us) r)
            \<and> UniformFormat.byteSize (fst (new_UniformBufferFormat s1 us) r) =
              UniformFormat.byteSize (fst (new_UniformBufferFormat s2 us) r)
            \<and> name (fst (new_UniformBufferFormat s1 us) r) =
              name (fst (new_UniformBufferFormat s2 us) r)
            \<and> type (fst (new_UniformBufferFormat s1 us) r) =
              type (fst (new_UniformBufferFormat s2 us) r))
       \<and> new_UniformBufferFormat (fst (new_UniformBufferFormat s1 us)) us =
           new_UniformBufferFormat s1 us"
proof -
  obtain t1 b1 m1 where run1: "uniforms_loop us s1 0 Map.empty = (t1, b1, m1)"
    by (cases "uniforms_loop us s1 0 Map.empty") blast
  obtain t2 b2 m2 where run2: "uniforms_loop us s2 0 Map.empty = (t2, b2, m2)"
    by (cases "uniforms_loop us s2 0 Map.empty") blast
  obtain t3 b3 m3 where run3: "uniforms_loop us t1 0 Map.empty = (t3, b3, m3)"
    by (cases "uniforms_loop us t1 0 Map.empty") blast
  note f1 = uniforms_loop_fields [OF run1]
  note f2 = uniforms_loop_fields [OF run2]
  note f3 = uniforms_loop_fields [OF run3]
  from assms have "\<forall>r\<in>set us. name (s1 r) = name (s2 r)
      \<and> UniformFormat.byteSize (s1 r) = UniformFormat.byteSize (s2 r)"
    by blast
  from uniforms_loop_agree [OF run1 run2 this]
  have eq12: "b1 = b2" "m1 = m2" "\<forall>r\<in>set us. offset (t1 r) = offset (t2 r)"
    by blast+
  have "\<forall>r\<in>set us. name (t1 r) = name (s1 r)
      \<and> UniformFormat.byteSize (t1 r) = UniformFormat.byteSize (s1 r)"
    using f1 by blast
  from uniforms_loop_agree [OF run3 run1 this]
  have eq31: "b3 = b1" "m3 = m1" "\<forall>r\<in>set us. offset (t3 r) = offset (t1 r)"
    by blast+
  have "t3 r = t1 r" for r
  proof (cases "r \<in> set us")
    case True
    with eq31(3) have "offset (t3 r) = offset (t1 r)" by blast
    with f3 [of r] show ?thesis by simp
  next
    case False
    from uniforms_loop_unchanged [OF run3 False] show ?thesis .
  qed
  then have "t3 = t1" by (rule ext)
  have new1: "new_UniformBufferFormat s1 us =
      (t1, \<lparr>byteSize = b1, map_by_name = m1, uniforms = us\<rparr>)"
    using run1 by (simp add: new_UniformBufferFormat_def)
  have new2: "new_UniformBufferFormat s2 us =
      (t2, \<lparr>byteSize = b1, map_by_name = m1, uniforms = us\<rparr>)"
    using run2 eq12 by (simp add: new_UniformBufferFormat_def)
  have new3: "new_UniformBufferFormat t1 us =
      (t1, \<lparr>byteSize = b1, map_by_name = m1, uniforms = us\<rparr>)"
    using run3 eq31 \<open>t3 = t1\<close> by (simp add: new_UniformBufferFormat_def)
  have "\<forall>r\<in>set us. offset (t1 r) = offset (t2 r)
      \<and> UniformFormat.byteSize (t1 r) = UniformFormat.byteSize (t2 r)
      \<and> name (t1 r) = name (t2 r) \<and> type (t1 r) = type (t2 r)"
    using eq12(3) assms f1 f2 by simp
  then show ?thesis
    by (simp only: new1 new2 new3 fst_conv snd_conv simp_thms)
qed

section \<open>Concrete runs of the lookup and of two equal constructions\<close>

theorem UniformBufferFormat_map_lookup_witness:
  "(let s = (\<lambda>r. \<lparr>name = ''a'', type = 4, byteSize = 12, offset = None\<rparr>)
              (1 := \<lparr>name = ''b'', type = 2, byteSize = 4, offset = None\<rparr>);
        s' = fst (new_UniformBufferFormat s [0, 1]);
        f = snd (new_UniformBufferFormat s [0, 1])
    in new_UniformBufferFormat s [0, 1] = (s', f)
       \<and> ''b'' \<in> (\<lambda>r. name (s' r)) ` set [0, 1]
       \<and> (\<exists>i<length [0, 1 :: nat]. map_by_name f ''b'' = Some ([0, 1] ! i)
               \<and> name (s' ([0, 1] ! i)) = ''b''
               \<and> offset (s' ([0, 1] ! i)) =
                   Some (sum_list (map (\<lambda>r. UniformFormat.byteSize (s' r)) (take i [0, 1])) / 4))
       \<and> map_by_name f ''b'' = Some 1
       \<and> s' 1 = \<lparr>name = ''b'', type = 2, byteSize = 4, offset = Some 3\<rparr>
       \<and> ''z'' \<notin> (\<lambda>r. name (s' r)) ` set [0, 1]
       \<and> map_by_name f ''z'' = None)"
proof -
  define s where "s = (\<lambda>r::nat. \<lparr>name = ''a'', type = 4, byteSize = 12, offset = None\<rparr>)
              (1 := \<lparr>name = ''b'', type = 2, byteSize = 4, offset = None\<rparr>)"
  define s' where "s' = fst (new_UniformBufferFormat s [0, 1])"
  define f where "f = snd (new_UniformBufferFormat s [0, 1])"
  have new: "new_UniformBufferFormat s [0, 1] = (s', f)"
    by (simp add: s'_def f_def)
  have s'1: "s' 1 = \<lparr>name = ''b'', type = 2, byteSize = 4, offset = Some 3\<rparr>"
    and s'0: "s' 0 = \<lparr>name = ''a'', type = 4, byteSize = 12, offset = Some 0\<rparr>"
    and f1: "map_by_name f ''b'' = Some 1"
    by (simp_all add: s'_def f_def s_def new_UniformBufferFormat_def Let_def)
  have b: "''b'' \<in> (\<lambda>r. name (s' r)) ` set [0, 1]"
    and z: "''z'' \<notin> (\<lambda>r. name (s' r)) ` set [0, 1]"
    using s'0 s'1 by simp_all
  from UniformBufferFormat_map_lookup [OF new, of "''b''"] b
  have 1: "\<exists>i<length [0, 1 :: nat]. map_by_name f ''b'' = Some ([0, 1] ! i)
               \<and> name (s' ([0, 1] ! i)) = ''b''
               \<and> offset (s' ([0, 1] ! i)) =
                   Some (sum_list (map (\<lambda>r. UniformFormat.byteSize (s' r)) (take i [0, 1])) / 4)"
    by blast
  from UniformBufferFormat_map_lookup [OF new, of "''z''"] z
  have 2: "map_by_name f ''z'' = None"
    by blast
  from new b 1 f1 s'1 z 2 show ?thesis
    unfolding Let_def s_def [symmetric] s'_def [symmetric] f_def [symmetric]
    by (intro conjI)
qed

theorem UniformBufferFormat_deterministic_witness:
  "(let s1 = (\<lambda>r. \<lparr>name = ''a'', type = 4, byteSize = 12, offset = None\<rparr>)
              (1 := \<lparr>name = ''b'', type = 2, byteSize = 4, offset = None\<rparr>);
        s2 = (\<lambda>r. \<lparr>name = ''a'', type = 4, byteSize = 12, offset = Some 7\<rparr>)
              (1 := \<lparr>name = ''b'', type = 2, byteSize = 4, offset = Some 0\<rparr>)
    in name (s1 0) = name (s2 0) \<and> type (s1 0) = type (s2 0)
       \<and> UniformFormat.byteSize (s1 0) = UniformFormat.byteSize (s2 0)
       \<and> name (s1 1) = name (s2 1) \<and> type (s1 1) = type (s2 1)
       \<and> UniformFormat.byteSize (s1 1) = UniformFormat.byteSize (s2 1)
       \<and> snd (new_UniformBufferFormat s1 [0, 1]) = snd (new_UniformBufferFormat s2 [0, 1])
       \<and> offset (fst (new_UniformBufferFormat s1 [0, 1]) 0) =
           offset (fst (new_UniformBufferFormat s2 [0, 1]) 0)
       \<and> offset (fst (new_UniformBufferFormat s1 [0, 1]) 1) =
           offset (fst (new_UniformBufferFormat s2 [0, 1]) 1)
       \<and> offset (fst (new_UniformBufferFormat s2 [0, 1]) 1) = Some 3
       \<and> new_UniformBufferFormat (fst (new_UniformBufferFormat s1 [0, 1])) [0, 1] =
           new_UniformBufferFormat s1 [0, 1])"
proof -
  define s1 where "s1 = (\<lambda>r::nat. \<lparr>name = ''a'', type = 4, byteSize = 12, offset = None\<rparr>)
              (1 := \<lparr>name = ''b'', type = 2, byteSize = 4, offset = None\<rparr>)"
  define s2 where "s2 = (\<lambda>r::nat. \<lparr>name = ''a'', type = 4, byteSize = 12, offset = Some 7\<rparr>)
              (1 := \<lparr>name = ''b'', type = 2, byteSize = 4, offset = Some 0\<rparr>)"
  have h0: "name (s1 0) = name (s2 0)" "type (s1 0) = type (s2 0)"
      "UniformFormat.byteSize (s1 0) = UniformFormat.byteSize (s2 0)"
    and h1: "name (s1 1) = name (s2 1)" "type (s1 1) = type (s2 1)"
      "UniformFormat.byteSize (s1 1) = UniformFormat.byteSize (s2 1)"
    by (simp_all add: s1_def s2_def)
  then have h: "\<forall>r\<in>set [0, 1]. name (s1 r) = name (s2 r) \<and> type (s1 r) = type (s2 r)
             \<and> UniformFormat.byteSize (s1 r) = UniformFormat.byteSize (s2 r)"
    by simp
  have v: "offset (fst (new_UniformBufferFormat s2 [0, 1]) 1) = Some 3"
    by (simp add: s2_def new_UniformBufferFormat_def Let_def)
  from UniformBufferFormat_deterministic [OF h]
  have "snd (new_UniformBufferFormat s1 [0, 1]) = snd (new_UniformBufferFormat s2 [0, 1])"
    and "offset (fst (new_UniformBufferFormat s1 [0, 1]) 0) =
           offset (fst (new_UniformBufferFormat s2 [0, 1]) 0)"
    and "offset (fst (new_UniformBufferFormat s1 [0, 1]) 1) =
           offset (fst (new_UniformBufferFormat s2 [0, 1]) 1)"
    and "new_UniformBufferFormat (fst (new_UniformBufferFormat s1 [0, 1])) [0, 1] =
           new_UniformBufferFormat s1 [0, 1]"
    by simp_all
  with h0 h1 v show ?thesis
    unfolding Let_def s1_def [symmetric] s2_def [symmetric]
    by (intro conjI)
qed

section \<open>The scenarios of the specification\<close>

text \<open>
  Claim C8. Let \<open>a\<close>, \<open>b\<close> and \<open>d\<close> be three different objects, made by
  \<open>new UniformFormat('a', UNIFORMTYPE_VEC3)\<close>, \<open>new UniformFormat('b', UNIFORMTYPE_FLOAT)\<close>
  and \<open>new UniformFormat('c', UNIFORMTYPE_VEC4)\<close>. The format constructed from the array
  of the three gives them the offsets 0, 3 and 4 (the bytes 0, 12 and 16) and has the byte
  size 32: the vec4 follows the float directly, at byte 16, and the float the vec3 at
  byte 12, with no padding to a 16-byte boundary.
\<close>

theorem UniformBufferFormat_scenario_vec3_float_vec4:
  assumes "constants_distinct c"
    and "new_UniformFormat c ''a'' (UNIFORMTYPE_VEC3 c) = Inr (s a)"
    and "new_UniformFormat c ''b'' (UNIFORMTYPE_FLOAT c) = Inr (s b)"
    and "new_UniformFormat c ''c'' (UNIFORMTYPE_VEC4 c) = Inr (s d)"
    and "distinct [a, b, d]"
    and "new_UniformBufferFormat s [a, b, d] = (s', f)"
  shows "offset (s' a) = Some 0 \<and> offset (s' b) = Some 3 \<and> offset (s' d) = Some 4
       \<and> UniformFormat.byteSize (s' a) = 12 \<and> UniformFormat.byteSize (s' b) = 4
       \<and> UniformFormat.byteSize (s' d) = 16
       \<and> UniformBufferFormat.byteSize f = 32
       \<and> map_by_name f ''a'' = Some a \<and> map_by_name f ''b'' = Some b
       \<and> map_by_name f ''c'' = Some d"
proof -
  note sizes = uniformTypeToByteSize_lookups [OF assms(1)]
  have a: "s a = \<lparr>name = ''a'', type = UNIFORMTYPE_VEC3 c, byteSize = 12, offset = None\<rparr>"
    using assms(2) new_UniformFormat_registered [OF sizes(7), of "''a''"] by simp
  have b: "s b = \<lparr>name = ''b'', type = UNIFORMTYPE_FLOAT c, byteSize = 4, offset = None\<rparr>"
    using assms(3) new_UniformFormat_registered [OF sizes(3), of "''b''"] by simp
  have d: "s d = \<lparr>name = ''c'', type = UNIFORMTYPE_VEC4 c, byteSize = 16, offset = None\<rparr>"
    using assms(4) new_UniformFormat_registered [OF sizes(10), of "''c''"] by simp
  from assms(5) have ne: "a \<noteq> b" "a \<noteq> d" "b \<noteq> d" "b \<noteq> a" "d \<noteq> a" "d \<noteq> b"
    by auto
  from assms(6) have "s' = fst (new_UniformBufferFormat s [a, b, d])"
    and "f = snd (new_UniformBufferFormat s [a, b, d])"
    by simp_all
  then show ?thesis
    by (simp add: new_UniformBufferFormat_def Let_def a b d ne)
qed

theorem UniformBufferFormat_scenario_vec3_float_vec4_witness:
  "(let s = (\<lambda>r. \<lparr>name = ''a'', type = 4, byteSize = 12, offset = None\<rparr>)
              (1 := \<lparr>name = ''b'', type = 2, byteSize = 4, offset = None\<rparr>,
               2 := \<lparr>name = ''c'', type = 5, byteSize = 16, offset = None\<rparr>)
    in constants_distinct constants_js
       \<and> new_UniformFormat constants_js ''a'' (UNIFORMTYPE_VEC3 constants_js) = Inr (s 0)
       \<and> new_UniformFormat constants_js ''b'' (UNIFORMTYPE_FLOAT constants_js) = Inr (s 1)
       \<and> new_UniformFormat constants_js ''c'' (UNIFORMTYPE_VEC4 constants_js) = Inr (s 2)
       \<and> distinct [0, 1, 2 :: nat]
       \<and> offset (fst (new_UniformBufferFormat s [0, 1, 2]) 0) = Some 0
       \<and> offset (fst (new_UniformBufferFormat s [0, 1, 2]) 1) = Some 3
       \<and> offset (fst (new_UniformBufferFormat s [0, 1, 2]) 2) = Some 4
       \<and> UniformBufferFormat.byteSize (snd (new_UniformBufferFormat s [0, 1, 2])) = 32)"
proof -
  define s where "s = (\<lambda>r::nat. \<lparr>name = ''a'', type = 4, byteSize = 12, offset = None\<rparr>)
              (1 := \<lparr>name = ''b'', type = 2, byteSize = 4, offset = None\<rparr>,
               2 := \<lparr>name = ''c'', type = 5, byteSize = 16, offset = None\<rparr>)"
  note sizes = uniformTypeToByteSize_lookups [OF constants_js_distinct]
  have a: "new_UniformFormat constants_js ''a'' (UNIFORMTYPE_VEC3 constants_js) = Inr (s 0)"
    using new_UniformFormat_registered [OF sizes(7), of "''a''"]
    by (simp add: s_def constants_js_def)
  have b: "new_UniformFormat constants_js ''b'' (UNIFORMTYPE_FLOAT constants_js) = Inr (s 1)"
    using new_UniformFormat_registered [OF sizes(3), of "''b''"]
    by (simp add: s_def constants_js_def)
  have d: "new_UniformFormat constants_js ''c'' (UNIFORMTYPE_VEC4 constants_js) = Inr (s 2)"
    using new_UniformFormat_registered [OF sizes(10), of "''c''"]
    by (simp add: s_def constants_js_def)
  have dist: "distinct [0, 1, 2 :: nat]" by simp
  have new: "new_UniformBufferFormat s [0, 1, 2] =
      (fst (new_UniformBufferFormat s [0, 1, 2]), snd (new_UniformBufferFormat s [0, 1, 2]))"
    by simp
  from UniformBufferFormat_scenario_vec3_float_vec4 [OF constants_js_distinct a b d dist new]
    a b d dist constants_js_distinct
  show ?thesis
    unfolding Let_def s_def [symmetric]
    by (intro conjI) simp_all
qed

section \<open>The passes of the loop\<close>

text \<open>
  The loop over an array goes through the state that the loop over a prefix of the array
  ends in: the state after \<open>k\<close> passes is the result of the loop on \<open>take k us\<close>.
\<close>

lemma uniforms_loop_append:
  "uniforms_loop (xs @ ys) s b m =
     (case uniforms_loop xs s b m of (s1, b1, m1) \<Rightarrow> uniforms_loop ys s1 b1 m1)"
  by (induction xs arbitrary: s b m) (simp_all add: Let_def)

lemma uniforms_loop_passes:
  "uniforms_loop us s b m =
     (case uniforms_loop (take k us) s b m of (s1, b1, m1) \<Rightarrow> uniforms_loop (drop k us) s1 b1 m1)"
  using uniforms_loop_append [of "take k us" "drop k us" s b m] by simp

lemma new_UniformBufferFormat_pass:
  assumes "i < length us"
  shows "offset (fst (new_UniformBufferFormat s (take (Suc i) us)) (us ! i)) =
           Some (sum_list (map (\<lambda>r. UniformFormat.byteSize (s r)) (take i us)) / 4)"
proof -
  let ?xs = "take (Suc i) us"
  obtain s' b' m' where run: "uniforms_loop ?xs s 0 Map.empty = (s', b', m')"
    by (cases "uniforms_loop ?xs s 0 Map.empty") blast
  from assms have i: "i < length ?xs" and at: "?xs ! i = us ! i"
    and later: "drop (Suc i) ?xs = []" and before: "take i ?xs = take i us"
    by (simp_all add: min_def)
  from later have "?xs ! i \<notin> set (drop (Suc i) ?xs)" by simp
  from uniforms_loop_offset [OF run i this] run show ?thesis
    by (simp add: new_UniformBufferFormat_def at before)
qed

lemma new_UniformBufferFormat_cursor:
  "UniformBufferFormat.byteSize (snd (new_UniformBufferFormat s xs)) =
     sum_list (map (\<lambda>r. UniformFormat.byteSize (s r)) xs)"
proof -
  obtain s' b' m' where run: "uniforms_loop xs s 0 Map.empty = (s', b', m')"
    by (cases "uniforms_loop xs s 0 Map.empty") blast
  from uniforms_loop_cursor [OF run] run show ?thesis
    by (simp add: new_UniformBufferFormat_def)
qed

section \<open>Multiples of four\<close>

lemma uniformTypeToByteSize_multiple_of_4:
  assumes "uniformTypeToByteSize c t = Some b"
  shows "\<exists>k::nat. b = 4 * of_nat k"
proof -
  from uniformTypeToByteSize_range [OF assms]
  consider "b = 4 * of_nat 1" | "b = 4 * of_nat 2" | "b = 4 * of_nat 3"
    | "b = 4 * of_nat 4" | "b = 4 * of_nat 16"
    by auto
  then show ?thesis by cases blast+
qed

lemma sum_list_multiple_of_4:
  fixes g :: "'a \<Rightarrow> rat"
  shows "\<forall>x\<in>set xs. \<exists>k::nat. g x = 4 * of_nat k \<Longrightarrow> \<exists>k::nat. sum_list (map g xs) = 4 * of_nat k"
proof (induction xs)
  case Nil
  have "sum_list (map g []) = 4 * of_nat 0" by simp
  then show ?case by blast
next
  case (Cons x xs)
  then obtain k l :: nat where "g x = 4 * of_nat k" "sum_list (map g xs) = 4 * of_nat l"
    by auto
  then have "sum_list (map g (x # xs)) = 4 * of_nat (k + l)"
    by (simp add: algebra_simps)
  then show ?case by blast
qed

text \<open>
  Claim C10. Every byte size of the table is four times a natural number. When every uniform
  of the array has the table's byte size for its type, the byte counter of the loop is four
  times a natural number before every pass and after the last one, and the offset that a
  pass assigns (the counter divided by 4) is a natural number, four times which is the
  counter again; so is the offset that every uniform of the array has in the end.
\<close>

theorem UniformBufferFormat_cursor_multiple_of_4:
  assumes "\<forall>r\<in>set us. uniformTypeToByteSize c (type (s r)) = Some (UniformFormat.byteSize (s r))"
  shows "(\<forall>t b. uniformTypeToByteSize c t = Some b \<longrightarrow>
            b \<in> {4, 8, 12, 16, 64} \<and> (\<exists>k::nat. b = 4 * of_nat k))
       \<and> (\<forall>i. i \<le> length us \<longrightarrow>
            (\<exists>k::nat. UniformBufferFormat.byteSize (snd (new_UniformBufferFormat s (take i us)))
                        = 4 * of_nat k))
       \<and> (\<forall>i. i < length us \<longrightarrow>
            (\<exists>k::nat. offset (fst (new_UniformBufferFormat s (take (Suc i) us)) (us ! i))
                        = Some (of_nat k)
               \<and> of_nat k * 4
                   = UniformBufferFormat.byteSize (snd (new_UniformBufferFormat s (take i us)))))
       \<and> (\<forall>r\<in>set us. \<exists>k::nat. offset (fst (new_UniformBufferFormat s us) r) = Some (of_nat k))"
proof -
  let ?size = "\<lambda>r. UniformFormat.byteSize (s r)"
  have table: "\<forall>t b. uniformTypeToByteSize c t = Some b \<longrightarrow>
            b \<in> {4, 8, 12, 16, 64} \<and> (\<exists>k::nat. b = 4 * of_nat k)"
    using uniformTypeToByteSize_range uniformTypeToByteSize_multiple_of_4 by blast
  have sizes: "\<forall>r\<in>set us. \<exists>k::nat. ?size r = 4 * of_nat k"
    using assms uniformTypeToByteSize_multiple_of_4 by blast
  have prefix: "\<exists>k::nat. sum_list (map ?size (take i us)) = 4 * of_nat k" for i
  proof (rule sum_list_multiple_of_4)
    show "\<forall>x\<in>set (take i us). \<exists>k::nat. ?size x = 4 * of_nat k"
      using sizes by (blast dest: in_set_takeD)
  qed
  have cursor: "\<forall>i. i \<le> length us \<longrightarrow>
            (\<exists>k::nat. UniformBufferFormat.byteSize (snd (new_UniformBufferFormat s (take i us)))
                        = 4 * of_nat k)"
    using prefix by (simp add: new_UniformBufferFormat_cursor)
  have pass: "\<exists>k::nat. offset (fst (new_UniformBufferFormat s (take (Suc i) us)) (us ! i))
                        = Some (of_nat k)
               \<and> of_nat k * 4
                   = UniformBufferFormat.byteSize (snd (new_UniformBufferFormat s (take i us)))"
    if "i < length us" for i
  proof -
    from prefix [of i] obtain k :: nat where k: "sum_list (map ?size (take i us)) = 4 * of_nat k"
      by blast
    have "offset (fst (new_UniformBufferFormat s (take (Suc i) us)) (us ! i)) = Some (of_nat k)"
      using new_UniformBufferFormat_pass [OF that, of s] k by simp
    moreover have "of_nat k * 4
        = UniformBufferFormat.byteSize (snd (new_UniformBufferFormat s (take i us)))"
      using k by (simp add: new_UniformBufferFormat_cursor)
    ultimately show ?thesis by blast
  qed
  have final: "\<exists>k::nat. offset (fst (new_UniformBufferFormat s us) r) = Some (of_nat k)"
    if "r \<in> set us" for r
  proof -
    obtain s' b' m' where run: "uniforms_loop us s 0 Map.empty = (s', b', m')"
      by (cases "uniforms_loop us s 0 Map.empty") blast
    from that have "\<exists>x\<in>set us. x = r" by simp
    from last_occurrence [of us "\<lambda>x. x = r", OF this]
    obtain i where i: "i < length us" "us ! i = r"
      and later: "\<forall>j. i < j \<and> j < length us \<longrightarrow> us ! j \<noteq> r"
      by blast
    have "us ! i \<notin> set (drop (Suc i) us)"
    proof
      assume "us ! i \<in> set (drop (Suc i) us)"
      then obtain k where k: "k < length (drop (Suc i) us)" "drop (Suc i) us ! k = us ! i"
        by (auto simp: in_set_conv_nth)
      then have "Suc i + k < length us" "us ! (Suc i + k) = us ! i"
        by simp_all
      with later [rule_format, of "Suc i + k"] i(2) show False by simp
    qed
    from uniforms_loop_offset [OF run i(1) this] i(2)
    have "offset (s' r) = Some (sum_list (map ?size (take i us)) / 4)" by simp
    moreover from prefix [of i] obtain k :: nat
      where "sum_list (map ?size (take i us)) = 4 * of_nat k" by blast
    ultimately have "offset (s' r) = Some (of_nat k)" by simp
    with run show ?thesis by (auto simp: new_UniformBufferFormat_def)
  qed
  from table cursor pass final show ?thesis by blast
qed

theorem UniformBufferFormat_cursor_multiple_of_4_witness:
  "(let s = (\<lambda>r. \<lparr>name = ''a'', type = 4, byteSize = 12, offset = None\<rparr>)
              (1 := \<lparr>name = ''b'', type = 2, byteSize = 4, offset = None\<rparr>)
    in uniformTypeToByteSize constants_js (type (s 0)) = Some (UniformFormat.byteSize (s 0))
       \<and> uniformTypeToByteSize constants_js (type (s 1)) = Some (UniformFormat.byteSize (s 1))
       \<and> (\<exists>k::nat. UniformBufferFormat.byteSize (snd (new_UniformBufferFormat s (take 1 [0, 1])))
                        = 4 * of_nat k)
       \<and> UniformBufferFormat.byteSize (snd (new_UniformBufferFormat s (take 1 [0, 1]))) = 12
       \<and> (\<exists>k::nat. offset (fst (new_UniformBufferFormat s (take (Suc 1) [0, 1])) ([0, 1] ! 1))
                        = Some (of_nat k)
               \<and> of_nat k * 4
                   = UniformBufferFormat.byteSize (snd (new_UniformBufferFormat s (take 1 [0, 1]))))
       \<and> offset (fst (new_UniformBufferFormat s [0, 1]) 1) = Some 3)"
proof -
  define s where "s = (\<lambda>r::nat. \<lparr>name = ''a'', type = 4, byteSize = 12, offset = None\<rparr>)
              (1 := \<lparr>name = ''b'', type = 2, byteSize = 4, offset = None\<rparr>)"
  note sizes = uniformTypeToByteSize_lookups [OF constants_js_distinct]
  have h0: "uniformTypeToByteSize constants_js (type (s 0)) = Some (UniformFormat.byteSize (s 0))"
    using sizes(7) by (simp add: s_def constants_js_def)
  have h1: "uniformTypeToByteSize constants_js (type (s 1)) = Some (UniformFormat.byteSize (s 1))"
    using sizes(3) by (simp add: s_def constants_js_def)
  from h0 h1 have h: "\<forall>r\<in>set [0, 1]. uniformTypeToByteSize constants_js (type (s r))
      = Some (UniformFormat.byteSize (s r))"
    by simp
  note inst = UniformBufferFormat_cursor_multiple_of_4 [OF h]
  have c: "\<exists>k::nat. UniformBufferFormat.byteSize
      (snd (new_UniformBufferFormat s (take 1 [0, 1]))) = 4 * of_nat k"
    by (rule inst [THEN conjunct2, THEN conjunct1, rule_format]) simp
  have p: "\<exists>k::nat. offset (fst (new_UniformBufferFormat s (take (Suc 1) [0, 1])) ([0, 1] ! 1))
                        = Some (of_nat k)
               \<and> of_nat k * 4
                   = UniformBufferFormat.byteSize (snd (new_UniformBufferFormat s (take 1 [0, 1])))"
    by (rule inst [THEN conjunct2, THEN conjunct2, THEN conjunct1, rule_format]) simp
  have v: "UniformBufferFormat.byteSize (snd (new_UniformBufferFormat s (take 1 [0, 1]))) = 12"
    "offset (fst (new_UniformBufferFormat s [0, 1]) 1) = Some 3"
    by (simp_all add: s_def new_UniformBufferFormat_def Let_def)
  from h0 h1 c p v show ?thesis
    unfolding Let_def s_def [symmetric]
    by (intro conjI)
qed

section \<open>Uniforms with the same name\<close>

lemma sum_list_take_split:
  fixes g :: "'a \<Rightarrow> rat"
  assumes "i < j" "j \<le> length us"
  shows "sum_list (map g (take j us)) =
           sum_list (map g (take i us)) + g (us ! i) + sum_list (map g (drop (Suc i) (take j us)))"
proof -
  from assms have "take (Suc i) (take j us) = take i us @ [us ! i]"
    by (simp add: take_Suc_conv_app_nth min_def)
  then have "take j us = take i us @ [us ! i] @ drop (Suc i) (take j us)"
    using append_take_drop_id [of "Suc i" "take j us"] by simp
  then have "sum_list (map g (take j us)) =
      sum_list (map g (take i us @ [us ! i] @ drop (Suc i) (take j us)))"
    by simp
  then show ?thesis by (simp add: add.assoc)
qed

lemma UniformBufferFormat_same_name:
  assumes new: "new_UniformBufferFormat s us = (s', f)"
    and ij: "i < j" "j < length us"
    and ni: "name (s (us ! i)) = n" and nj: "name (s (us ! j)) = n"
  shows "UniformBufferFormat.byteSize f = sum_list (map (\<lambda>r. UniformFormat.byteSize (s r)) us)"
    and "distinct us \<Longrightarrow> offset (s' (us ! i)) =
           Some (sum_list (map (\<lambda>r. UniformFormat.byteSize (s r)) (take i us)) / 4)"
    and "distinct us \<Longrightarrow> offset (s' (us ! j)) =
           Some (sum_list (map (\<lambda>r. UniformFormat.byteSize (s r)) (take j us)) / 4)"
    and "distinct us \<Longrightarrow> map_by_name f n \<noteq> Some (us ! i)"
    and "\<exists>k<length us. j \<le> k \<and> map_by_name f n = Some (us ! k) \<and> name (s' (us ! k)) = n
           \<and> (\<forall>l. k < l \<and> l < length us \<longrightarrow> name (s' (us ! l)) \<noteq> n)"
proof -
  from new obtain b' m' where run: "uniforms_loop us s 0 Map.empty = (s', b', m')"
    and f: "f = \<lparr>byteSize = b', map_by_name = m', uniforms = us\<rparr>"
    by (rule new_UniformBufferFormat_run)
  have names: "\<And>r. name (s' r) = name (s r)"
    using uniforms_loop_fields [OF run] by blast
  from uniforms_loop_cursor [OF run] f
  show "UniformBufferFormat.byteSize f = sum_list (map (\<lambda>r. UniformFormat.byteSize (s r)) us)"
    by simp
  from ij have i: "i < length us" by simp
  show "offset (s' (us ! i)) =
      Some (sum_list (map (\<lambda>r. UniformFormat.byteSize (s r)) (take i us)) / 4)"
    if "distinct us"
    using uniforms_loop_offset [OF run i distinct_not_later [OF that i]] by simp
  show "offset (s' (us ! j)) =
      Some (sum_list (map (\<lambda>r. UniformFormat.byteSize (s r)) (take j us)) / 4)"
    if "distinct us"
    using uniforms_loop_offset [OF run ij(2) distinct_not_later [OF that ij(2)]] by simp
  from nth_mem [OF ij(2)] nj have "\<exists>r\<in>set us. name (s r) = n"
    by blast
  from last_occurrence [of us "\<lambda>r. name (s r) = n", OF this]
  obtain k where k: "k < length us" "name (s (us ! k)) = n"
    and later: "\<forall>l. k < l \<and> l < length us \<longrightarrow> name (s (us ! l)) \<noteq> n"
    by blast
  from later [rule_format, of j] ij(2) nj have jk: "j \<le> k"
    by (cases "k < j") simp_all
  from uniforms_loop_map_last [OF run k later] f
  have m: "map_by_name f n = Some (us ! k)" by simp
  show "map_by_name f n \<noteq> Some (us ! i)" if "distinct us"
  proof -
    from ij jk have "k \<noteq> i" by simp
    with that k(1) i have "us ! k \<noteq> us ! i"
      by (simp add: nth_eq_iff_index_eq)
    with m show ?thesis by simp
  qed
  from k later jk m
  show "\<exists>k<length us. j \<le> k \<and> map_by_name f n = Some (us ! k) \<and> name (s' (us ! k)) = n
           \<and> (\<forall>l. k < l \<and> l < length us \<longrightarrow> name (s' (us ! l)) \<noteq> n)"
    by (auto simp: names)
qed

lemma UniformBufferFormat_x_float_x_vec2:
  assumes "constants_distinct c"
    and "new_UniformFormat c ''x'' (UNIFORMTYPE_FLOAT c) = Inr (s x)"
    and "new_UniformFormat c ''x'' (UNIFORMTYPE_VEC2 c) = Inr (s y)"
    and "x \<noteq> y"
    and "new_UniformBufferFormat s [x, y] = (s', f)"
  shows "UniformBufferFormat.byteSize f = 12 \<and> map_by_name f ''x'' = Some y
       \<and> s' y = \<lparr>name = ''x'', type = UNIFORMTYPE_VEC2 c, byteSize = 8, offset = Some 1\<rparr>
       \<and> s' x = \<lparr>name = ''x'', type = UNIFORMTYPE_FLOAT c, byteSize = 4, offset = Some 0\<rparr>"
proof -
  note sizes = uniformTypeToByteSize_lookups [OF assms(1)]
  have x: "s x = \<lparr>name = ''x'', type = UNIFORMTYPE_FLOAT c, byteSize = 4, offset = None\<rparr>"
    using assms(2) new_UniformFormat_registered [OF sizes(3), of "''x''"] by simp
  have y: "s y = \<lparr>name = ''x'', type = UNIFORMTYPE_VEC2 c, byteSize = 8, offset = None\<rparr>"
    using assms(3) new_UniformFormat_registered [OF sizes(4), of "''x''"] by simp
  from assms(4) have ne: "x \<noteq> y" "y \<noteq> x" by auto
  from assms(5) have "s' = fst (new_UniformBufferFormat s [x, y])"
    and "f = snd (new_UniformBufferFormat s [x, y])"
    by simp_all
  then show ?thesis
    by (simp add: new_UniformBufferFormat_def Let_def x y ne)
qed

text \<open>
  Claim C6. Let two places \<open>i < j\<close> of the array hold uniforms with the same name. The
  byte size of the format is still the sum over all places of the array, and the pass of
  each of the two places assigns the offset of the bytes before that place, where the bytes
  before \<open>j\<close> include the bytes before \<open>i\<close> and the byte size of the uniform at \<open>i\<close>;
  when the array holds no object twice these are the offsets the two uniforms end with. The
  map holds the name once: it gives the uniform at the last place with this name, at \<open>j\<close>
  or later, never the different object at \<open>i\<close>.
  In particular for two different objects \<open>new UniformFormat('x', UNIFORMTYPE_FLOAT)\<close> and
  \<open>new UniformFormat('x', UNIFORMTYPE_VEC2)\<close>, in this order: the byte size is 12 and
  the lookup of \<open>x\<close> gives the second, the vec2 uniform with offset 1.
\<close>

theorem UniformBufferFormat_duplicate_names:
  "(\<forall>s us s' f i j n.
      new_UniformBufferFormat s us = (s', f) \<and> i < j \<and> j < length us
      \<and> name (s (us ! i)) = n \<and> name (s (us ! j)) = n \<longrightarrow>
        UniformBufferFormat.byteSize f = sum_list (map (\<lambda>r. UniformFormat.byteSize (s r)) us)
      \<and> offset (fst (new_UniformBufferFormat s (take (Suc i) us)) (us ! i)) =
          Some (sum_list (map (\<lambda>r. UniformFormat.byteSize (s r)) (take i us)) / 4)
      \<and> offset (fst (new_UniformBufferFormat s (take (Suc j) us)) (us ! j)) =
          Some (sum_list (map (\<lambda>r. UniformFormat.byteSize (s r)) (take j us)) / 4)
      \<and> sum_list (map (\<lambda>r. UniformFormat.byteSize (s r)) (take j us)) =
          sum_list (map (\<lambda>r. UniformFormat.byteSize (s r)) (take i us))
            + UniformFormat.byteSize (s (us ! i))
            + sum_list (map (\<lambda>r. UniformFormat.byteSize (s r)) (drop (Suc i) (take j us)))
      \<and> (distinct us \<longrightarrow>
            offset (s' (us ! i)) =
              Some (sum_list (map (\<lambda>r. UniformFormat.byteSize (s r)) (take i us)) / 4)
          \<and> offset (s' (us ! j)) =
              Some (sum_list (map (\<lambda>r. UniformFormat.byteSize (s r)) (take j us)) / 4)
          \<and> map_by_name f n \<noteq> Some (us ! i))
      \<and> (\<exists>k<length us. j \<le> k \<and> map_by_name f n = Some (us ! k) \<and> name (s' (us ! k)) = n
            \<and> (\<forall>l. k < l \<and> l < length us \<longrightarrow> name (s' (us ! l)) \<noteq> n)))
   \<and> (\<forall>c s x y s' f.
        constants_distinct c
        \<and> new_UniformFormat c ''x'' (UNIFORMTYPE_FLOAT c) = Inr (s x)
        \<and> new_UniformFormat c ''x'' (UNIFORMTYPE_VEC2 c) = Inr (s y)
        \<and> x \<noteq> y
        \<and> new_UniformBufferFormat s [x, y] = (s', f) \<longrightarrow>
          UniformBufferFormat.byteSize f = 12 \<and> map_by_name f ''x'' = Some y
        \<and> s' y = \<lparr>name = ''x'', type = UNIFORMTYPE_VEC2 c, byteSize = 8, offset = Some 1\<rparr>
        \<and> s' x = \<lparr>name = ''x'', type = UNIFORMTYPE_FLOAT c, byteSize = 4, offset = Some 0\<rparr>)"
proof (intro conjI allI impI)
  fix s :: store and us s' f i j n
  assume a: "new_UniformBufferFormat s us = (s', f) \<and> i < j \<and> j < length us
      \<and> name (s (us ! i)) = n \<and> name (s (us ! j)) = n"
  then have new: "new_UniformBufferFormat s us = (s', f)" and ij: "i < j" "j < length us"
    and ni: "name (s (us ! i)) = n" and nj: "name (s (us ! j)) = n"
    by simp_all
  note same = UniformBufferFormat_same_name [OF new ij ni nj]
  from ij have i: "i < length us" by simp
  show "UniformBufferFormat.byteSize f = sum_list (map (\<lambda>r. UniformFormat.byteSize (s r)) us)"
    by (rule same(1))
  show "offset (fst (new_UniformBufferFormat s (take (Suc i) us)) (us ! i)) =
          Some (sum_list (map (\<lambda>r. UniformFormat.byteSize (s r)) (take i us)) / 4)"
    by (rule new_UniformBufferFormat_pass [OF i])
  show "offset (fst (new_UniformBufferFormat s (take (Suc j) us)) (us ! j)) =
          Some (sum_list (map (\<lambda>r. UniformFormat.byteSize (s r)) (take j us)) / 4)"
    by (rule new_UniformBufferFormat_pass [OF ij(2)])
  show "sum_list (map (\<lambda>r. UniformFormat.byteSize (s r)) (take j us)) =
          sum_list (map (\<lambda>r. UniformFormat.byteSize (s r)) (take i us))
            + UniformFormat.byteSize (s (us ! i))
            + sum_list (map (\<lambda>r. UniformFormat.byteSize (s r)) (drop (Suc i) (take j us)))"
    using ij by (intro sum_list_take_split) simp_all
  show "\<exists>k<length us. j \<le> k \<and> map_by_name f n = Some (us ! k) \<and> name (s' (us ! k)) = n
            \<and> (\<forall>l. k < l \<and> l < length us \<longrightarrow> name (s' (us ! l)) \<noteq> n)"
    by (rule same(5))
  {
    assume d: "distinct us"
    show "offset (s' (us ! i)) =
              Some (sum_list (map (\<lambda>r. UniformFormat.byteSize (s r)) (take i us)) / 4)"
      by (rule same(2) [OF d])
    show "offset (s' (us ! j)) =
              Some (sum_list (map (\<lambda>r. UniformFormat.byteSize (s r)) (take j us)) / 4)"
      by (rule same(3) [OF d])
    show "map_by_name f n \<noteq> Some (us ! i)"
      by (rule same(4) [OF d])
  }
next
  fix c and s :: store and x y s' f
  assume a: "constants_distinct c
        \<and> new_UniformFormat c ''x'' (UNIFORMTYPE_FLOAT c) = Inr (s x)
        \<and> new_UniformFormat c ''x'' (UNIFORMTYPE_VEC2 c) = Inr (s y)
        \<and> x \<noteq> y
        \<and> new_UniformBufferFormat s [x, y] = (s', f)"
  then have p: "constants_distinct c"
    "new_UniformFormat c ''x'' (UNIFORMTYPE_FLOAT c) = Inr (s x)"
    "new_UniformFormat c ''x'' (UNIFORMTYPE_VEC2 c) = Inr (s y)"
    "x \<noteq> y" "new_UniformBufferFormat s [x, y] = (s', f)"
    by simp_all
  from UniformBufferFormat_x_float_x_vec2 [OF p]
  show "UniformBufferFormat.byteSize f = 12" and "map_by_name f ''x'' = Some y"
    and "s' y = \<lparr>name = ''x'', type = UNIFORMTYPE_VEC2 c, byteSize = 8, offset = Some 1\<rparr>"
    and "s' x = \<lparr>name = ''x'', type = UNIFORMTYPE_FLOAT c, byteSize = 4, offset = Some 0\<rparr>"
    by simp_all
qed

theorem UniformBufferFormat_duplicate_names_witness:
  "(let s = (\<lambda>r. \<lparr>name = ''x'', type = 2, byteSize = 4, offset = None\<rparr>)
              (1 := \<lparr>name = ''x'', type = 3, byteSize = 8, offset = None\<rparr>);
        s' = fst (new_UniformBufferFormat s [0, 1]);
        f = snd (new_UniformBufferFormat s [0, 1])
    in new_UniformBufferFormat s [0, 1] = (s', f)
       \<and> (0 :: nat) < 1 \<and> 1 < length [0, 1 :: nat]
       \<and> name (s ([0, 1] ! 0)) = ''x'' \<and> name (s ([0, 1] ! 1)) = ''x''
       \<and> distinct [0, 1 :: nat]
       \<and> constants_distinct constants_js
       \<and> new_UniformFormat constants_js ''x'' (UNIFORMTYPE_FLOAT constants_js) = Inr (s 0)
       \<and> new_UniformFormat constants_js ''x'' (UNIFORMTYPE_VEC2 constants_js) = Inr (s 1)
       \<and> (0 :: nat) \<noteq> 1
       \<and> UniformBufferFormat.byteSize f = 12
       \<and> map_by_name f ''x'' = Some 1
       \<and> s' 1 = \<lparr>name = ''x'', type = UNIFORMTYPE_VEC2 constants_js, byteSize = 8, offset = Some 1\<rparr>
       \<and> s' 0 = \<lparr>name = ''x'', type = UNIFORMTYPE_FLOAT constants_js, byteSize = 4, offset = Some 0\<rparr>
       \<and> UniformBufferFormat.byteSize f = sum_list (map (\<lambda>r. UniformFormat.byteSize (s r)) [0, 1])
       \<and> map_by_name f ''x'' \<noteq> Some ([0, 1] ! 0))"
proof -
  define s where "s = (\<lambda>r::nat. \<lparr>name = ''x'', type = 2, byteSize = 4, offset = None\<rparr>)
              (1 := \<lparr>name = ''x'', type = 3, byteSize = 8, offset = None\<rparr>)"
  define s' where "s' = fst (new_UniformBufferFormat s [0, 1])"
  define f where "f = snd (new_UniformBufferFormat s [0, 1])"
  note sizes = uniformTypeToByteSize_lookups [OF constants_js_distinct]
  have new: "new_UniformBufferFormat s [0, 1] = (s', f)"
    by (simp add: s'_def f_def)
  have ij: "(0 :: nat) < 1" "1 < length [0, 1 :: nat]" by simp_all
  have n: "name (s ([0, 1] ! 0)) = ''x''" "name (s ([0, 1] ! 1)) = ''x''"
    by (simp_all add: s_def)
  have d: "distinct [0, 1 :: nat]" by simp
  have x: "new_UniformFormat constants_js ''x'' (UNIFORMTYPE_FLOAT constants_js) = Inr (s 0)"
    using new_UniformFormat_registered [OF sizes(3), of "''x''"]
    by (simp add: s_def constants_js_def)
  have y: "new_UniformFormat constants_js ''x'' (UNIFORMTYPE_VEC2 constants_js) = Inr (s 1)"
    using new_UniformFormat_registered [OF sizes(4), of "''x''"]
    by (simp add: s_def constants_js_def)
  have ne: "(0 :: nat) \<noteq> 1" by simp
  have pre1: "new_UniformBufferFormat s [0, 1] = (s', f) \<and> (0 :: nat) < 1 \<and> 1 < length [0, 1 :: nat]
      \<and> name (s ([0, 1] ! 0)) = ''x'' \<and> name (s ([0, 1] ! 1)) = ''x''"
    using new ij n by (simp only: simp_thms)
  note general = UniformBufferFormat_duplicate_names
      [THEN conjunct1, rule_format, of s "[0, 1]" s' f 0 1 "''x''", OF pre1]
  have g1: "UniformBufferFormat.byteSize f
        = sum_list (map (\<lambda>r. UniformFormat.byteSize (s r)) [0, 1])"
    by (rule general [THEN conjunct1])
  have g2: "map_by_name f ''x'' \<noteq> Some ([0, 1] ! 0)"
    using general d by (simp only: simp_thms)
  have pre2: "constants_distinct constants_js
        \<and> new_UniformFormat constants_js ''x'' (UNIFORMTYPE_FLOAT constants_js) = Inr (s 0)
        \<and> new_UniformFormat constants_js ''x'' (UNIFORMTYPE_VEC2 constants_js) = Inr (s 1)
        \<and> (0 :: nat) \<noteq> 1
        \<and> new_UniformBufferFormat s [0, 1] = (s', f)"
    using constants_js_distinct x y ne new by (simp only: simp_thms)
  note example = UniformBufferFormat_duplicate_names
      [THEN conjunct2, rule_format, of constants_js s 0 1 s' f, OF pre2]
  have e1: "UniformBufferFormat.byteSize f = 12"
    and e2: "map_by_name f ''x'' = Some 1"
    and e3: "s' 1 = \<lparr>name = ''x'', type = UNIFORMTYPE_VEC2 constants_js, byteSize = 8, offset = Some 1\<rparr>"
    and e4: "s' 0 = \<lparr>name = ''x'', type = UNIFORMTYPE_FLOAT constants_js, byteSize = 4, offset = Some 0\<rparr>"
    using example by (simp_all only: simp_thms)
  show ?thesis
    unfolding Let_def s_def [symmetric] s'_def [symmetric] f_def [symmetric]
    by (simp only: new ij n d constants_js_distinct x y ne g1 [symmetric] e1 e2 e3 e4 simp_thms)
      simp
qed

end
